theory Spec2Isabelle
  imports Main "HOL-Library.Word" "HOL-Library.Multiset"
begin

section \<open>Data model\<close>

text \<open>
  The page organiser keeps two arrays in its component state: the uploaded files and the
  pages of the output document, in output order. The types follow \<^verbatim>\<open>types.ts\<close>.
\<close>

type_synonym bytes = "8 word list"

text \<open>
  A browser \<^verbatim>\<open>File\<close>: its name, its MIME type and its content (what
  \<^verbatim>\<open>file.arrayBuffer()\<close> resolves to). Its \<^verbatim>\<open>size\<close> is the length of the content.
\<close>

record File =
  name_File :: string
  type_File :: string
  arrayBuffer :: bytes

definition size_File :: "File \<Rightarrow> nat" where
  "size_File f = length (arrayBuffer f)"

record PDFPage =
  id_PDFPage :: string
  sourceFileId :: string
  pageIndex :: nat
  previewUrl :: string
  originalFileName :: string

record PDFFile =
  id_PDFFile :: string
  name_PDFFile :: string
  file_PDFFile :: File
  pageCount :: nat

text \<open>
  A JavaScript array of \<open>'a\<close>: every slot holds a value or \<^verbatim>\<open>undefined\<close> (\<open>None\<close>).
  The static type \<^verbatim>\<open>PDFPage[]\<close> does not exclude the latter at run time.
\<close>

type_synonym 'a js_array = "'a option list"

record app_state =
  files :: "PDFFile list"
  allPages :: "PDFPage js_array"
  isLoading :: bool

datatype error =
  DecodeError | RenderError | MissingSource | CopyError | SerializeError
  | IndexOutOfRange | TypeError

datatype direction = Left | Right

section \<open>Array reads and writes\<close>

text \<open>
  Reading \<^verbatim>\<open>xs[i]\<close> outside the array gives \<^verbatim>\<open>undefined\<close>. Writing \<^verbatim>\<open>xs[i] = v\<close> at
  \<open>i \<ge> length\<close> extends the array up to slot \<open>i\<close>; writing at a negative \<open>i\<close> sets a
  property that is not an element, so the elements stay as they are.
\<close>

definition js_get :: "'a js_array \<Rightarrow> int \<Rightarrow> 'a option" where
  "js_get xs i = (if 0 \<le> i \<and> i < int (length xs) then xs ! nat i else None)"

definition js_set :: "'a js_array \<Rightarrow> int \<Rightarrow> 'a option \<Rightarrow> 'a js_array" where
  "js_set xs i v =
     (if i < 0 then xs
      else if i < int (length xs) then xs[nat i := v]
      else xs @ replicate (nat i - length xs) None @ [v])"

section \<open>Reordering and deleting pages\<close>

text \<open>
  \<^verbatim>\<open>movePage\<close> copies the array, returns early when the neighbour's position is outside
  the array, and otherwise exchanges the two slots with a destructuring assignment: both
  reads happen first, then \<^verbatim>\<open>newPages[index]\<close> is written, then
  \<^verbatim>\<open>newPages[targetIndex]\<close>. Nothing in it can throw, so the result is always \<open>Inr\<close>.
\<close>

definition targetIndex :: "int \<Rightarrow> direction \<Rightarrow> int" where
  "targetIndex index dir = (if dir = Left then index - 1 else index + 1)"

definition movePage :: "int \<Rightarrow> direction \<Rightarrow> app_state \<Rightarrow> error + app_state" where
  "movePage index dir st =
     (let newPages = allPages st;
          t = targetIndex index dir
      in if t < 0 \<or> t \<ge> int (length newPages) then Inr st
         else
           let fromTarget = js_get newPages t;
               fromIndex = js_get newPages index;
               newPages1 = js_set newPages index fromTarget;
               newPages2 = js_set newPages1 t fromIndex
           in Inr (st\<lparr>allPages := newPages2\<rparr>))"

text \<open>
  \<^verbatim>\<open>removePage\<close> keeps the slots whose position differs from \<^verbatim>\<open>index\<close>:
  \<^verbatim>\<open>prev.filter((_, i) => i !== index)\<close>. It cannot throw either.
\<close>

definition removePage :: "int \<Rightarrow> app_state \<Rightarrow> error + app_state" where
  "removePage index st =
     Inr (st\<lparr>allPages :=
            map snd (filter (\<lambda>(i, _). int i \<noteq> index) (enumerate 0 (allPages st)))\<rparr>)"

section \<open>The external libraries\<close>

text \<open>
  The PDF renderer (pdf.js) and the PDF writer (pdf-lib) are not part of the program; the
  functions below take them as parameters. A rejected promise or a thrown exception of a
  library call is \<open>None\<close>; the program's functions turn it into the error of that step.

  \<^item> \<open>getDocument\<close>: \<^verbatim>\<open>pdfjsLib.getDocument({data}).promise\<close>;
  \<^item> \<open>numPages\<close>: \<^verbatim>\<open>pdf.numPages\<close>;
  \<^item> \<open>getPage\<close>: \<^verbatim>\<open>pdf.getPage(i)\<close>, pages counted from 1;
  \<^item> \<open>getContext\<close>: whether \<^verbatim>\<open>canvas.getContext('2d')\<close> gave a context (not
    \<^verbatim>\<open>null\<close>) for the canvas created for that page;
  \<^item> \<open>render\<close>: \<^verbatim>\<open>page.render(...).promise\<close> followed by \<^verbatim>\<open>canvas.toDataURL\<close>.
\<close>

record ('doc, 'page) pdfjs =
  getDocument :: "bytes \<Rightarrow> 'doc option"
  numPages :: "'doc \<Rightarrow> nat"
  getPage :: "'doc \<Rightarrow> nat \<Rightarrow> 'page option"
  getContext :: "'page \<Rightarrow> bool"
  render :: "'page \<Rightarrow> string option"

text \<open>
  \<^item> \<open>load\<close>: \<^verbatim>\<open>PDFDocument.load(bytes)\<close>;
  \<^item> \<open>copyPage\<close>: \<^verbatim>\<open>mergedPdf.copyPages(sourceDoc, [pageIndex])\<close>, the one copied page;
  \<^item> \<open>save\<close>: \<^verbatim>\<open>mergedPdf.save()\<close> for the pages added so far, in order.
\<close>

record ('d, 'pg) pdflib =
  load :: "bytes \<Rightarrow> 'd option"
  copyPage :: "'d \<Rightarrow> nat \<Rightarrow> 'pg option"
  save :: "'pg list \<Rightarrow> bytes option"

section \<open>Loading a file and rendering its previews\<close>

text \<open>
  The loop of \<^verbatim>\<open>loadPdfAndGetPreviews\<close> over \<open>i = 1, \<dots>, pageCount\<close>. A page whose canvas
  has no context is passed over without a preview; a page that cannot be fetched or
  rendered ends the loop with the error.
\<close>

function preview_loop ::
  "('doc, 'page) pdfjs \<Rightarrow> 'doc \<Rightarrow> nat \<Rightarrow> nat \<Rightarrow> string list \<Rightarrow> error + string list" where
  "preview_loop E pdf n i previews =
     (if i \<le> n then
        (case getPage E pdf i of
           None \<Rightarrow> Inl RenderError
         | Some page \<Rightarrow>
             if getContext E page then
               (case render E page of
                  None \<Rightarrow> Inl RenderError
                | Some url \<Rightarrow> preview_loop E pdf n (Suc i) (previews @ [url]))
             else preview_loop E pdf n (Suc i) previews)
      else Inr previews)"
  by pat_completeness auto
termination
  by (relation "measure (\<lambda>(E, pdf, n, i, previews). Suc n - i)") auto

declare preview_loop.simps [simp del]

definition loadPdfAndGetPreviews ::
  "('doc, 'page) pdfjs \<Rightarrow> File \<Rightarrow> error + (nat \<times> string list)" where
  "loadPdfAndGetPreviews E f =
     (case getDocument E (arrayBuffer f) of
        None \<Rightarrow> Inl DecodeError
      | Some pdf \<Rightarrow>
          let n = numPages E pdf
          in (case preview_loop E pdf n 1 [] of
                Inl e \<Rightarrow> Inl e
              | Inr previews \<Rightarrow> Inr (n, previews)))"

section \<open>Uploading a batch of files\<close>

text \<open>Decimal digits of a number, as a template literal prints it.\<close>

fun decimal :: "nat \<Rightarrow> string" where
  "decimal n =
     (if n < 10 then [char_of (48 + n)]
      else decimal (n div 10) @ [char_of (48 + n mod 10)])"

declare decimal.simps [simp del]

text \<open>
  The loop of \<^verbatim>\<open>handleFileUpload\<close> over the selected files. \<open>ids k\<close> is the \<open>k\<close>-th
  identifier drawn from \<^verbatim>\<open>Math.random\<close> during the call; one is drawn for each file that
  loaded, after its load. The first load that fails leaves the loop with its error.
\<close>

definition newPagesOf :: "string \<Rightarrow> File \<Rightarrow> string list \<Rightarrow> PDFPage list" where
  "newPagesOf fileId f previews =
     map (\<lambda>(index, url).
            \<lparr>id_PDFPage = fileId @ ''-'' @ decimal index, sourceFileId = fileId,
             pageIndex = index, previewUrl = url, originalFileName = name_File f\<rparr>)
         (enumerate 0 previews)"

fun upload_loop ::
  "('doc, 'page) pdfjs \<Rightarrow> (nat \<Rightarrow> string) \<Rightarrow> File list \<Rightarrow> PDFFile list \<Rightarrow> PDFPage list
     \<Rightarrow> error + (PDFFile list \<times> PDFPage list)" where
  "upload_loop E ids [] newFiles newPages = Inr (newFiles, newPages)"
| "upload_loop E ids (f # rest) newFiles newPages =
     (if type_File f \<noteq> ''application/pdf'' then upload_loop E ids rest newFiles newPages
      else
        (case loadPdfAndGetPreviews E f of
           Inl e \<Rightarrow> Inl e
         | Inr (n, previews) \<Rightarrow>
             let fileId = ids (length newFiles)
             in upload_loop E ids rest
                  (newFiles @ [\<lparr>id_PDFFile = fileId, name_PDFFile = name_File f,
                                 file_PDFFile = f, pageCount = n\<rparr>])
                  (newPages @ newPagesOf fileId f previews)))"

text \<open>
  The handler returns the next state and the error it caught and reported with
  \<^verbatim>\<open>alert\<close>, if any. One \<^verbatim>\<open>try\<close> block encloses the whole loop and both state updates.
\<close>

definition handleFileUpload ::
  "('doc, 'page) pdfjs \<Rightarrow> (nat \<Rightarrow> string) \<Rightarrow> app_state \<Rightarrow> File list
     \<Rightarrow> app_state \<times> error option" where
  "handleFileUpload E ids st selectedFiles =
     (if selectedFiles = [] then (st, None)
      else
        (case upload_loop E ids selectedFiles [] [] of
           Inl e \<Rightarrow> (st\<lparr>isLoading := False\<rparr>, Some e)
         | Inr (newFiles, newPages) \<Rightarrow>
             (st\<lparr>files := files st @ newFiles,
                 allPages := allPages st @ map Some newPages,
                 isLoading := False\<rparr>, None)))"

section \<open>Exporting the merged document\<close>

definition fileKey :: "File \<Rightarrow> string" where
  "fileKey f = name_File f @ ''-'' @ decimal (size_File f)"

text \<open>
  The loop of \<^verbatim>\<open>mergeAndDownloadPdf\<close>: the pages copied so far, the cache of loaded
  documents by \<^verbatim>\<open>fileKey\<close>, and the files given to \<^verbatim>\<open>PDFDocument.load\<close> so far, in the
  order of the calls.
\<close>

fun merge_loop ::
  "('d, 'pg) pdflib \<Rightarrow> (File \<times> nat) list \<Rightarrow> 'pg list \<Rightarrow> (string \<rightharpoonup> 'd) \<Rightarrow> File list
     \<Rightarrow> error + ('pg list \<times> File list)" where
  "merge_loop L [] mergedPdf sourcePdfCache loads = Inr (mergedPdf, loads)"
| "merge_loop L ((sourceFile, idx) # rest) mergedPdf sourcePdfCache loads =
     (case sourcePdfCache (fileKey sourceFile) of
        Some sourceDoc \<Rightarrow>
          (case copyPage L sourceDoc idx of
             None \<Rightarrow> Inl CopyError
           | Some copiedPage \<Rightarrow>
               merge_loop L rest (mergedPdf @ [copiedPage]) sourcePdfCache loads)
      | None \<Rightarrow>
          (case load L (arrayBuffer sourceFile) of
             None \<Rightarrow> Inl DecodeError
           | Some sourceDoc \<Rightarrow>
               (case copyPage L sourceDoc idx of
                  None \<Rightarrow> Inl CopyError
                | Some copiedPage \<Rightarrow>
                    merge_loop L rest (mergedPdf @ [copiedPage])
                      (sourcePdfCache(fileKey sourceFile \<mapsto> sourceDoc))
                      (loads @ [sourceFile]))))"

text \<open>
  What an export that succeeded has produced: the pages of the merged document in order,
  the bytes offered for download, and the files that were decoded. The naming of the
  download and the release of its URL are left out.
\<close>

record 'pg export =
  outPages :: "'pg list"
  pdfBytes :: bytes
  loaded :: "File list"

definition mergeAndDownloadPdf ::
  "('d, 'pg) pdflib \<Rightarrow> (File \<times> nat) list \<Rightarrow> error + 'pg export" where
  "mergeAndDownloadPdf L pages =
     (case merge_loop L pages [] Map.empty [] of
        Inl e \<Rightarrow> Inl e
      | Inr (mergedPdf, loads) \<Rightarrow>
          (case save L mergedPdf of
             None \<Rightarrow> Inl SerializeError
           | Some bs \<Rightarrow> Inr \<lparr>outPages = mergedPdf, pdfBytes = bs, loaded = loads\<rparr>))"

text \<open>
  The \<^verbatim>\<open>map\<close> of \<^verbatim>\<open>handleDownload\<close>: each page is resolved to its source file, the first
  entry of \<^verbatim>\<open>files\<close> with the page's \<^verbatim>\<open>sourceFileId\<close>. A page without one throws
  \<^verbatim>\<open>Error("Source file missing")\<close>. For an \<^verbatim>\<open>undefined\<close> slot the callback of
  \<^verbatim>\<open>files.find\<close> reads a field of \<^verbatim>\<open>undefined\<close> and throws a \<^verbatim>\<open>TypeError\<close> at the first
  file; with no file registered the callback never runs, nothing is found, and the slot
  ends in \<^verbatim>\<open>Error("Source file missing")\<close> as well.
\<close>

fun pagesToProcess :: "PDFFile list \<Rightarrow> PDFPage js_array \<Rightarrow> error + (File \<times> nat) list" where
  "pagesToProcess fs [] = Inr []"
| "pagesToProcess fs (None # rest) = (if fs = [] then Inl MissingSource else Inl TypeError)"
| "pagesToProcess fs (Some page # rest) =
     (case find (\<lambda>f. id_PDFFile f = sourceFileId page) fs of
        None \<Rightarrow> Inl MissingSource
      | Some sourceFile \<Rightarrow>
          (case pagesToProcess fs rest of
             Inl e \<Rightarrow> Inl e
           | Inr items \<Rightarrow> Inr ((file_PDFFile sourceFile, pageIndex page) # items)))"

text \<open>
  \<^verbatim>\<open>handleDownload\<close> does nothing on an empty page list (\<open>None\<close>). Otherwise it reports
  the error it caught with \<^verbatim>\<open>alert\<close> (\<open>Inl\<close>), or the export took place.
\<close>

definition handleDownload ::
  "('d, 'pg) pdflib \<Rightarrow> app_state \<Rightarrow> (error + 'pg export) option" where
  "handleDownload L st =
     (if allPages st = [] then None
      else Some (case pagesToProcess (files st) (allPages st) of
                   Inl e \<Rightarrow> Inl e
                 | Inr items \<Rightarrow> mergeAndDownloadPdf L items))"

section \<open>The cache invariant of the export loop\<close>

text \<open>
  What holds of the cache and of the list of decoded files throughout the loop: no two
  decoded files share a key, the cache holds exactly their keys, and under the key of a
  decoded file it holds the document decoded from that file.
\<close>

definition cache_inv :: "('d, 'pg) pdflib \<Rightarrow> (string \<rightharpoonup> 'd) \<Rightarrow> File list \<Rightarrow> bool" where
  "cache_inv L cache loads \<longleftrightarrow>
     distinct (map fileKey loads) \<and> dom cache = fileKey ` set loads \<and>
     (\<forall>f\<in>set loads. \<exists>d. load L (arrayBuffer f) = Some d \<and> cache (fileKey f) = Some d)"

section \<open>Sample data\<close>

text \<open>
  A small renderer and a small writer for the examples. A file decodes when its first
  byte is 37; every further byte is one page. The renderer cannot render the page 0 and
  gets no canvas context for the page 255.
\<close>

definition sample_pdfjs :: "(bytes, 8 word) pdfjs" where
  "sample_pdfjs =
     \<lparr>getDocument =
        (\<lambda>bs. case bs of [] \<Rightarrow> None | b # rest \<Rightarrow> if b = 37 then Some rest else None),
      numPages = length,
      getPage = (\<lambda>doc i. if 1 \<le> i \<and> i \<le> length doc then Some (doc ! (i - 1)) else None),
      getContext = (\<lambda>page. page \<noteq> 255),
      render = (\<lambda>page. if page = 0 then None else Some (''data:'' @ decimal (unat page)))\<rparr>"

definition sample_pdflib :: "(bytes, 8 word) pdflib" where
  "sample_pdflib =
     \<lparr>load = (\<lambda>bs. case bs of [] \<Rightarrow> None | b # rest \<Rightarrow> if b = 37 then Some rest else None),
      copyPage = (\<lambda>doc i. if i < length doc then Some (doc ! i) else None),
      save = (\<lambda>pgs. Some (37 # pgs))\<rparr>"

definition sample_ids :: "nat \<Rightarrow> string" where
  "sample_ids k = ''id'' @ decimal k"

text \<open>The identifiers drawn during a later upload.\<close>

definition later_ids :: "nat \<Rightarrow> string" where
  "later_ids k = ''id'' @ decimal (Suc k)"

definition fileA :: File where
  "fileA = \<lparr>name_File = ''a.pdf'', type_File = ''application/pdf'',
            arrayBuffer = [37, 1, 2, 3]\<rparr>"

definition fileB :: File where
  "fileB = \<lparr>name_File = ''b.pdf'', type_File = ''application/pdf'', arrayBuffer = [37, 4, 5]\<rparr>"

text \<open>Not a PDF, whatever its name and type say.\<close>

definition fileX :: File where
  "fileX = \<lparr>name_File = ''x.pdf'', type_File = ''application/pdf'', arrayBuffer = [1, 2]\<rparr>"


text \<open>No canvas context for its first page.\<close>

definition fileC :: File where
  "fileC = \<lparr>name_File = ''c.pdf'', type_File = ''application/pdf'',
            arrayBuffer = [37, 255, 7]\<rparr>"

text \<open>Another document with the name and the size of \<open>fileA\<close>.\<close>

definition fileA2 :: File where
  "fileA2 = \<lparr>name_File = ''a.pdf'', type_File = ''application/pdf'',
             arrayBuffer = [37, 9, 8, 7]\<rparr>"

definition empty_state :: app_state where
  "empty_state = \<lparr>files = [], allPages = [], isLoading = False\<rparr>"

definition pageA0 :: PDFPage where
  "pageA0 = \<lparr>id_PDFPage = ''id0-0'', sourceFileId = ''id0'', pageIndex = 0,
             previewUrl = ''data:1'', originalFileName = ''a.pdf''\<rparr>"

definition pageA1 :: PDFPage where
  "pageA1 = \<lparr>id_PDFPage = ''id0-1'', sourceFileId = ''id0'', pageIndex = 1,
             previewUrl = ''data:2'', originalFileName = ''a.pdf''\<rparr>"

definition pageB0 :: PDFPage where
  "pageB0 = \<lparr>id_PDFPage = ''id1-0'', sourceFileId = ''id1'', pageIndex = 0,
             previewUrl = ''data:4'', originalFileName = ''b.pdf''\<rparr>"

definition three_pages :: app_state where
  "three_pages =
     \<lparr>files = [\<lparr>id_PDFFile = ''id0'', name_PDFFile = ''a.pdf'', file_PDFFile = fileA,
                 pageCount = 3\<rparr>,
               \<lparr>id_PDFFile = ''id1'', name_PDFFile = ''b.pdf'', file_PDFFile = fileB,
                 pageCount = 2\<rparr>],
      allPages = [Some pageA0, Some pageA1, Some pageB0], isLoading = False\<rparr>"

text \<open>The file of the first page is no longer registered.\<close>

definition dangling_state :: app_state where
  "dangling_state =
     \<lparr>files = [\<lparr>id_PDFFile = ''id1'', name_PDFFile = ''b.pdf'', file_PDFFile = fileB,
                 pageCount = 2\<rparr>],
      allPages = [Some pageB0, Some pageA0], isLoading = False\<rparr>"

text \<open>The state after the upload of \<open>fileC\<close> alone.\<close>

definition fileC_uploaded :: app_state where
  "fileC_uploaded = fst (handleFileUpload sample_pdfjs sample_ids empty_state [fileC])"

text \<open>The state after the upload of \<open>fileA\<close> and a later upload of \<open>fileA2\<close>.\<close>

definition uploaded_twice :: app_state where
  "uploaded_twice =
     fst (handleFileUpload sample_pdfjs later_ids
            (fst (handleFileUpload sample_pdfjs sample_ids empty_state [fileA])) [fileA2])"

section \<open>Properties of deleting a page\<close>

lemma enumerate_drop_index:
  "map snd (filter (\<lambda>(i, _). i \<noteq> k) (enumerate n xs)) =
     (if n \<le> k \<and> k < n + length xs then take (k - n) xs @ drop (Suc (k - n)) xs else xs)"
proof (induction xs arbitrary: n)
  case Nil
  then show ?case by simp
next
  case (Cons x xs)
  show ?case
  proof (cases "n = k")
    case True
    then show ?thesis using Cons.IH [of "Suc n"] by simp
  next
    case False
    show ?thesis
    proof (cases "n < k")
      case True
      then obtain m where m: "k - n = Suc m" "k - Suc n = m"
        by (metis Suc_diff_Suc)
      with True False show ?thesis using Cons.IH [of "Suc n"] by auto
    next
      case nk: False
      with False show ?thesis using Cons.IH [of "Suc n"] by auto
    qed
  qed
qed

lemma filter_index_int:
  "map snd (filter (\<lambda>(i, _). int i \<noteq> index) (enumerate 0 xs)) =
     (if 0 \<le> index \<and> index < int (length xs)
      then take (nat index) xs @ drop (Suc (nat index)) xs else xs)"
proof (cases "0 \<le> index")
  case True
  then have "(\<lambda>(i::nat, _::'a). int i \<noteq> index) = (\<lambda>(i, _). i \<noteq> nat index)"
    by (auto simp: fun_eq_iff)
  then show ?thesis using True enumerate_drop_index [of "nat index" 0 xs] by auto
next
  case False
  then have "filter (\<lambda>(i::nat, _::'a). int i \<noteq> index) (enumerate 0 xs) = enumerate 0 xs"
    by (auto simp: filter_id_conv)
  then show ?thesis using False by simp
qed

text \<open>
  C3, as the code has it. \<^verbatim>\<open>removePage\<close> never fails. For an index inside the page list it
  deletes exactly the entry there: the entries before it stay, the entries after it move
  one place to the left in their order, and the length goes down by one. For an index
  outside the page list (negative, or at least the length) it leaves the list as it is.
\<close>

theorem removePage_deletes_or_keeps:
  "(0 \<le> index \<and> index < int (length (allPages st)) \<longrightarrow>
      removePage index st =
        Inr (st\<lparr>allPages := take (nat index) (allPages st) @ drop (Suc (nat index)) (allPages st)\<rparr>)
      \<and> length (take (nat index) (allPages st) @ drop (Suc (nat index)) (allPages st))
          = length (allPages st) - 1)
   \<and> (index < 0 \<or> int (length (allPages st)) \<le> index \<longrightarrow> removePage index st = Inr st)"
proof -
  have "removePage index st =
     Inr (st\<lparr>allPages :=
            (if 0 \<le> index \<and> index < int (length (allPages st))
             then take (nat index) (allPages st) @ drop (Suc (nat index)) (allPages st)
             else allPages st)\<rparr>)"
    unfolding removePage_def filter_index_int by simp
  then show ?thesis by auto
qed

theorem removePage_deletes_or_keeps_witness:
  "((0::int) \<le> 1 \<and> 1 < int (length (allPages three_pages)))
   \<and> removePage 1 three_pages = Inr (three_pages\<lparr>allPages := [Some pageA0, Some pageB0]\<rparr>)
   \<and> int (length (allPages three_pages)) \<le> 7
   \<and> removePage 7 three_pages = Inr three_pages"
  using removePage_deletes_or_keeps [of 1 three_pages]
    removePage_deletes_or_keeps [of 7 three_pages]
  by (simp add: three_pages_def)

text \<open>
  C3 as stated fails: with three pages, \<^verbatim>\<open>removePage(3)\<close> returns normally and leaves the
  three pages, where the claim has it fail with \<open>IndexOutOfRange\<close>.
\<close>

theorem removePage_out_of_range_counterexample:
  "int (length (allPages three_pages)) \<le> 3
   \<and> removePage 3 three_pages = Inr three_pages
   \<and> removePage 3 three_pages \<noteq> Inl IndexOutOfRange"
  by (simp add: removePage_def three_pages_def)

section \<open>Properties of moving a page\<close>

lemma movePage_out:
  assumes "targetIndex index dir < 0 \<or> int (length (allPages st)) \<le> targetIndex index dir"
  shows "movePage index dir st = Inr st"
  using assms by (auto simp: movePage_def Let_def)

lemma movePage_in:
  assumes "0 \<le> index" "index < int (length (allPages st))"
    and "0 \<le> targetIndex index dir" "targetIndex index dir < int (length (allPages st))"
  shows "movePage index dir st =
     Inr (st\<lparr>allPages := (allPages st)[nat index := allPages st ! nat (targetIndex index dir),
                                      nat (targetIndex index dir) := allPages st ! nat index]\<rparr>)"
  using assms by (auto simp: movePage_def Let_def js_get_def js_set_def)

text \<open>
  C8, as the code has it. The neighbour of \<open>index\<close> is \<open>index - 1\<close> to the left and
  \<open>index + 1\<close> to the right. When the neighbour's position is outside the page list,
  \<^verbatim>\<open>movePage\<close> leaves the list unchanged and raises no error, whatever the index. When
  both the index and the neighbour's position are inside the page list, the two entries
  are exchanged and every other entry stays.
\<close>

theorem movePage_swaps_neighbour:
  "targetIndex index Left = index - 1 \<and> targetIndex index Right = index + 1
   \<and> (targetIndex index dir < 0 \<or> int (length (allPages st)) \<le> targetIndex index dir \<longrightarrow>
        movePage index dir st = Inr st)
   \<and> (0 \<le> index \<and> index < int (length (allPages st))
        \<and> 0 \<le> targetIndex index dir \<and> targetIndex index dir < int (length (allPages st)) \<longrightarrow>
        movePage index dir st =
          Inr (st\<lparr>allPages :=
                 (allPages st)[nat index := allPages st ! nat (targetIndex index dir),
                               nat (targetIndex index dir) := allPages st ! nat index]\<rparr>))"
  using movePage_out [of index dir st] movePage_in [of index st dir]
  by (simp add: targetIndex_def)

theorem movePage_swaps_neighbour_witness:
  "(targetIndex 0 Left < 0 \<and> movePage 0 Left three_pages = Inr three_pages)
   \<and> (int (length (allPages three_pages)) \<le> targetIndex 2 Right
        \<and> movePage 2 Right three_pages = Inr three_pages)
   \<and> ((0::int) \<le> 1 \<and> 1 < int (length (allPages three_pages))
        \<and> 0 \<le> targetIndex 1 Right \<and> targetIndex 1 Right < int (length (allPages three_pages))
        \<and> movePage 1 Right three_pages =
            Inr (three_pages\<lparr>allPages := [Some pageA0, Some pageB0, Some pageA1]\<rparr>))"
  using movePage_swaps_neighbour [of 0 Left three_pages]
    movePage_swaps_neighbour [of 2 Right three_pages]
    movePage_swaps_neighbour [of 1 Right three_pages]
  by (simp add: three_pages_def targetIndex_def)

text \<open>
  C8 as stated fails for an index outside the page list whose neighbour is inside. With
  three pages, \<^verbatim>\<open>movePage(-1, 'right')\<close> has the neighbour 0: the first page is replaced
  by \<^verbatim>\<open>undefined\<close> and appears nowhere in the list, which is neither an exchange of two
  entries nor the list unchanged.
\<close>

theorem movePage_index_outside_counterexample:
  "0 \<le> targetIndex (- 1) Right \<and> targetIndex (- 1) Right < int (length (allPages three_pages))
   \<and> movePage (- 1) Right three_pages =
       Inr (three_pages\<lparr>allPages := [None, Some pageA1, Some pageB0]\<rparr>)
   \<and> Some pageA0 \<notin> set [None, Some pageA1, Some pageB0]"
  by (simp add: movePage_def targetIndex_def js_get_def js_set_def three_pages_def
      pageA0_def pageA1_def pageB0_def)

text \<open>
  C9, as the code has it. For an index \<open>i\<close> with \<open>1 \<le> i < length\<close>, moving the page at
  \<open>i\<close> to the left and then the page at \<open>i - 1\<close> to the right gives back the original
  page list. The same holds where both moves do nothing: on the empty list, for a
  negative \<open>i\<close> and for \<open>i > length\<close>.
\<close>

theorem movePage_left_then_right:
  assumes "(1 \<le> i \<and> i < int (length (allPages st))) \<or> allPages st = []
           \<or> i < 0 \<or> int (length (allPages st)) < i"
  shows "\<exists>st'. movePage i Left st = Inr st' \<and> movePage (i - 1) Right st' = Inr st"
proof (cases "1 \<le> i \<and> i < int (length (allPages st))")
  case True
  let ?xs = "allPages st"
  let ?ys = "?xs[nat i := ?xs ! nat (i - 1), nat (i - 1) := ?xs ! nat i]"
  have 1: "movePage i Left st = Inr (st\<lparr>allPages := ?ys\<rparr>)"
    using movePage_in [of i st Left] True by (simp add: targetIndex_def)
  have 2: "movePage (i - 1) Right (st\<lparr>allPages := ?ys\<rparr>) =
             Inr (st\<lparr>allPages := ?ys[nat (i - 1) := ?ys ! nat i, nat i := ?ys ! nat (i - 1)]\<rparr>)"
    using movePage_in [of "i - 1" "st\<lparr>allPages := ?ys\<rparr>" Right] True
    by (simp add: targetIndex_def)
  have "?ys[nat (i - 1) := ?ys ! nat i, nat i := ?ys ! nat (i - 1)] = ?xs"
    using True by (auto simp: list_eq_iff_nth_eq nth_list_update)
  with 1 2 show ?thesis by simp
next
  case False
  with assms have out: "allPages st = [] \<or> i < 0 \<or> int (length (allPages st)) < i" by blast
  then have "movePage i Left st = Inr st"
    by (intro movePage_out) (auto simp: targetIndex_def)
  moreover from out have "movePage (i - 1) Right st = Inr st"
    by (intro movePage_out) (auto simp: targetIndex_def)
  ultimately show ?thesis by simp
qed

theorem movePage_left_then_right_witness:
  "((1::int) \<le> 2 \<and> 2 < int (length (allPages three_pages)))
   \<and> movePage 2 Left three_pages =
       Inr (three_pages\<lparr>allPages := [Some pageA0, Some pageB0, Some pageA1]\<rparr>)
   \<and> (\<exists>st'. movePage 2 Left three_pages = Inr st' \<and> movePage (2 - 1) Right st' = Inr three_pages)"
proof -
  have h: "(1::int) \<le> 2 \<and> 2 < int (length (allPages three_pages))"
    by (simp add: three_pages_def)
  have "movePage 2 Left three_pages =
       Inr (three_pages\<lparr>allPages := [Some pageA0, Some pageB0, Some pageA1]\<rparr>)"
    by (simp add: movePage_def targetIndex_def js_get_def js_set_def three_pages_def)
  with h movePage_left_then_right [of 2 three_pages] show ?thesis by blast
qed

text \<open>
  C9 as stated fails at the first page. With three pages, \<^verbatim>\<open>movePage(0, 'left')\<close> does
  nothing, and \<^verbatim>\<open>movePage(-1, 'right')\<close> on the result then overwrites the first page
  with \<^verbatim>\<open>undefined\<close>: the original list is not restored.
\<close>

theorem movePage_left_then_right_counterexample:
  "movePage 0 Left three_pages = Inr three_pages
   \<and> movePage (0 - 1) Right three_pages =
       Inr (three_pages\<lparr>allPages := [None, Some pageA1, Some pageB0]\<rparr>)
   \<and> movePage (0 - 1) Right three_pages \<noteq> Inr three_pages"
  by (simp add: movePage_def targetIndex_def js_get_def js_set_def three_pages_def)

text \<open>
  C10, as the code has it. When the index is inside the page list, or the neighbour's
  position is outside it, \<^verbatim>\<open>movePage\<close> gives a list of the same length with the same
  entries, each as often as before: the list unchanged, or the list with one pair of
  adjacent entries exchanged.
\<close>

theorem movePage_same_entries:
  assumes "(0 \<le> index \<and> index < int (length (allPages st)))
           \<or> targetIndex index dir < 0 \<or> int (length (allPages st)) \<le> targetIndex index dir"
  shows "\<exists>ys. movePage index dir st = Inr (st\<lparr>allPages := ys\<rparr>)
           \<and> length ys = length (allPages st) \<and> mset ys = mset (allPages st)
           \<and> (ys = allPages st
              \<or> (\<exists>k. Suc k < length (allPages st)
                     \<and> ys = (allPages st)[k := allPages st ! Suc k, Suc k := allPages st ! k]))"
proof (cases "targetIndex index dir < 0 \<or> int (length (allPages st)) \<le> targetIndex index dir")
  case True
  then have "movePage index dir st = Inr (st\<lparr>allPages := allPages st\<rparr>)"
    by (simp add: movePage_out)
  then show ?thesis by blast
next
  case False
  with assms have b: "0 \<le> index" "index < int (length (allPages st))"
    "0 \<le> targetIndex index dir" "targetIndex index dir < int (length (allPages st))"
    by auto
  let ?xs = "allPages st"
  let ?t = "targetIndex index dir"
  let ?ys = "?xs[nat index := ?xs ! nat ?t, nat ?t := ?xs ! nat index]"
  have mv: "movePage index dir st = Inr (st\<lparr>allPages := ?ys\<rparr>)"
    using movePage_in [OF b] .
  have ms: "mset ?ys = mset ?xs"
    using b by (simp add: mset_swap)
  have "\<exists>k. Suc k < length ?xs \<and> ?ys = ?xs[k := ?xs ! Suc k, Suc k := ?xs ! k]"
  proof (cases dir)
    case Left
    then have t: "?t = index - 1" by (simp add: targetIndex_def)
    with b have "nat index = Suc (nat ?t)" by simp
    moreover have "Suc (nat ?t) < length ?xs" using b t by simp
    ultimately show ?thesis
      by (metis list_update_swap n_not_Suc_n)
  next
    case Right
    then have t: "?t = index + 1" by (simp add: targetIndex_def)
    with b have "nat ?t = Suc (nat index)" by simp
    moreover have "Suc (nat index) < length ?xs" using b t by simp
    ultimately show ?thesis by metis
  qed
  with mv ms show ?thesis by auto
qed

theorem movePage_same_entries_witness:
  "((0::int) \<le> 1 \<and> 1 < int (length (allPages three_pages)))
   \<and> (\<exists>ys. movePage 1 Right three_pages = Inr (three_pages\<lparr>allPages := ys\<rparr>)
           \<and> length ys = length (allPages three_pages) \<and> mset ys = mset (allPages three_pages)
           \<and> (ys = allPages three_pages
              \<or> (\<exists>k. Suc k < length (allPages three_pages)
                     \<and> ys = (allPages three_pages)[k := allPages three_pages ! Suc k,
                                                  Suc k := allPages three_pages ! k])))"
proof -
  have h: "(0::int) \<le> 1 \<and> 1 < int (length (allPages three_pages))"
    by (simp add: three_pages_def)
  with movePage_same_entries [of 1 three_pages Right] show ?thesis by blast
qed

text \<open>
  C10 as stated fails for the index just behind the last page. With three pages,
  \<^verbatim>\<open>movePage(3, 'left')\<close> writes the last page into a new fourth slot and
  \<^verbatim>\<open>undefined\<close> into the third: the list has grown by one slot.
\<close>

theorem movePage_grows_counterexample:
  "movePage 3 Left three_pages =
     Inr (three_pages\<lparr>allPages := [Some pageA0, Some pageA1, None, Some pageB0]\<rparr>)
   \<and> length [Some pageA0, Some pageA1, None, Some pageB0] \<noteq> length (allPages three_pages)
   \<and> mset [Some pageA0, Some pageA1, None, Some pageB0] \<noteq> mset (allPages three_pages)"
proof -
  have "size (mset [Some pageA0, Some pageA1, None, Some pageB0])
          \<noteq> size (mset (allPages three_pages))"
    by (simp add: three_pages_def)
  then have "mset [Some pageA0, Some pageA1, None, Some pageB0] \<noteq> mset (allPages three_pages)"
    by metis
  then show ?thesis
    by (simp add: movePage_def targetIndex_def js_get_def js_set_def three_pages_def)
qed

section \<open>Properties of the preview loader\<close>


lemma preview_loop_all:
  assumes "\<forall>j. i \<le> j \<and> j \<le> n \<longrightarrow>
             (\<exists>pg url. getPage E pdf j = Some pg \<and> getContext E pg \<and> render E pg = Some url)"
  shows "\<exists>ps. preview_loop E pdf n i acc = Inr (acc @ ps) \<and> length ps = Suc n - i \<and>
           (\<forall>k<length ps. \<exists>pg. getPage E pdf (i + k) = Some pg \<and> render E pg = Some (ps ! k))"
  using assms
proof (induction E pdf n i acc rule: preview_loop.induct)
  case (1 E pdf n i previews)
  show ?case
  proof (cases "i \<le> n")
    case False
    then show ?thesis by (subst preview_loop.simps) simp
  next
    case True
    with 1(3) obtain pg url where
      pg: "getPage E pdf i = Some pg" "getContext E pg" "render E pg = Some url"
      by blast
    have rest: "\<forall>j. Suc i \<le> j \<and> j \<le> n \<longrightarrow>
             (\<exists>pg url. getPage E pdf j = Some pg \<and> getContext E pg \<and> render E pg = Some url)"
      using 1(3) by auto
    from 1(1) [OF True pg rest] obtain ps where
      ps: "preview_loop E pdf n (Suc i) (previews @ [url]) = Inr ((previews @ [url]) @ ps)"
          "length ps = Suc n - Suc i"
          "\<forall>k<length ps. \<exists>pg. getPage E pdf (Suc i + k) = Some pg \<and> render E pg = Some (ps ! k)"
      by blast
    have "preview_loop E pdf n i previews = Inr (previews @ (url # ps))"
      using True pg ps(1) by (subst preview_loop.simps) simp
    moreover have "length (url # ps) = Suc n - i" using ps(2) True by simp
    moreover have "\<forall>k<length (url # ps).
        \<exists>pg. getPage E pdf (i + k) = Some pg \<and> render E pg = Some ((url # ps) ! k)"
    proof (intro allI impI)
      fix k assume "k < length (url # ps)"
      show "\<exists>pg. getPage E pdf (i + k) = Some pg \<and> render E pg = Some ((url # ps) ! k)"
      proof (cases k)
        case 0
        then show ?thesis using pg by simp
      next
        case (Suc m)
        with \<open>k < length (url # ps)\<close> have "m < length ps" by simp
        with ps(3) Suc show ?thesis by auto
      qed
    qed
    ultimately show ?thesis by blast
  qed
qed

lemma preview_loop_error: "preview_loop E pdf n i acc = Inl e \<Longrightarrow> e = RenderError"
proof (induction E pdf n i acc rule: preview_loop.induct)
  case (1 E pdf n i previews)
  from 1(3) show ?case
    by (subst (asm) preview_loop.simps) (auto split: if_splits option.splits dest: 1(1) 1(2))
qed

lemma load_error: "loadPdfAndGetPreviews E f = Inl e \<Longrightarrow> e = DecodeError \<or> e = RenderError"
  by (auto simp: loadPdfAndGetPreviews_def Let_def split: option.splits sum.splits
      dest: preview_loop_error)


text \<open>
  Where the canvas of every page gets a 2d context: let a file decode to a document of
  \<open>N\<close> pages such that every page can be fetched and rendered and the canvas of every
  page gets a context. Then the loader returns \<open>pageCount = N\<close> and exactly \<open>N\<close>
  previews, and the \<open>k\<close>-th preview (from 0) is the rendering of page \<open>k + 1\<close>.
\<close>

lemma loadPdfAndGetPreviews_all_pages:
  assumes "getDocument E (arrayBuffer f) = Some pdf"
    and "\<forall>i. 1 \<le> i \<and> i \<le> numPages E pdf \<longrightarrow>
           (\<exists>pg url. getPage E pdf i = Some pg \<and> getContext E pg \<and> render E pg = Some url)"
  shows "\<exists>previews. loadPdfAndGetPreviews E f = Inr (numPages E pdf, previews)
           \<and> length previews = numPages E pdf
           \<and> (\<forall>k<numPages E pdf.
                 \<exists>pg. getPage E pdf (Suc k) = Some pg \<and> render E pg = Some (previews ! k))"
proof -
  from preview_loop_all [OF assms(2), of "[]"] obtain ps where
    ps: "preview_loop E pdf (numPages E pdf) 1 [] = Inr ps" "length ps = numPages E pdf"
      "\<forall>k<length ps. \<exists>pg. getPage E pdf (1 + k) = Some pg \<and> render E pg = Some (ps ! k)"
    by auto
  then have "loadPdfAndGetPreviews E f = Inr (numPages E pdf, ps)"
    using assms(1) by (simp add: loadPdfAndGetPreviews_def)
  with ps show ?thesis by auto
qed

lemma loadPdfAndGetPreviews_all_pages_fileA:
  "getDocument sample_pdfjs (arrayBuffer fileA) = Some [1, 2, 3]
   \<and> numPages sample_pdfjs [1, 2, 3] = 3
   \<and> getPage sample_pdfjs [1, 2, 3] 1 = Some 1 \<and> getContext sample_pdfjs 1
   \<and> render sample_pdfjs 1 = Some ''data:1''
   \<and> getPage sample_pdfjs [1, 2, 3] 2 = Some 2 \<and> getContext sample_pdfjs 2
   \<and> render sample_pdfjs 2 = Some ''data:2''
   \<and> getPage sample_pdfjs [1, 2, 3] 3 = Some 3 \<and> getContext sample_pdfjs 3
   \<and> render sample_pdfjs 3 = Some ''data:3''
   \<and> (\<exists>previews. loadPdfAndGetPreviews sample_pdfjs fileA = Inr (3, previews)
           \<and> length previews = 3)"
proof -
  have d: "getDocument sample_pdfjs (arrayBuffer fileA) = Some [1, 2, 3]"
    by (simp add: sample_pdfjs_def fileA_def)
  have n: "numPages sample_pdfjs [1, 2, 3] = 3"
    by (simp add: sample_pdfjs_def)
  have each:
    "getPage sample_pdfjs [1, 2, 3] 1 = Some 1 \<and> getContext sample_pdfjs 1
     \<and> render sample_pdfjs 1 = Some ''data:1''
     \<and> getPage sample_pdfjs [1, 2, 3] 2 = Some 2 \<and> getContext sample_pdfjs 2
     \<and> render sample_pdfjs 2 = Some ''data:2''
     \<and> getPage sample_pdfjs [1, 2, 3] 3 = Some 3 \<and> getContext sample_pdfjs 3
     \<and> render sample_pdfjs 3 = Some ''data:3''"
    by code_simp
  have p: "\<forall>i. 1 \<le> i \<and> i \<le> numPages sample_pdfjs [1, 2, 3] \<longrightarrow>
           (\<exists>pg url. getPage sample_pdfjs [1, 2, 3] i = Some pg \<and> getContext sample_pdfjs pg
                      \<and> render sample_pdfjs pg = Some url)"
  proof (intro allI impI)
    fix i :: nat assume "1 \<le> i \<and> i \<le> numPages sample_pdfjs [1, 2, 3]"
    then have "i = 1 \<or> i = 2 \<or> i = 3" using n by auto
    with each show "\<exists>pg url. getPage sample_pdfjs [1, 2, 3] i = Some pg
                      \<and> getContext sample_pdfjs pg \<and> render sample_pdfjs pg = Some url"
      by blast
  qed
  from loadPdfAndGetPreviews_all_pages [OF d p] n d each show ?thesis by auto
qed

text \<open>
  C4. The loader breaks the claim where a canvas gets no 2d context. \<open>fileC\<close> decodes to
  two pages that both can be rendered, but the canvas of its first page gets no context:
  the loader passes the page over without an error and returns \<open>pageCount = 2\<close> with one
  preview, the rendering of page 2. The upload numbers the pages by the position of their
  previews, so the one page it shows, with the preview of page 2, has \<open>pageIndex = 0\<close>,
  and the export copies page 1 of the file, the page \<open>255\<close>, in its place.
\<close>

theorem no_context_drops_preview:
  "getDocument sample_pdfjs (arrayBuffer fileC) = Some [255, 7]
   \<and> numPages sample_pdfjs [255, 7] = 2
   \<and> getPage sample_pdfjs [255, 7] 1 = Some 255 \<and> render sample_pdfjs 255 = Some ''data:255''
   \<and> getPage sample_pdfjs [255, 7] 2 = Some 7 \<and> render sample_pdfjs 7 = Some ''data:7''
   \<and> loadPdfAndGetPreviews sample_pdfjs fileC = Inr (2, [''data:7''])
   \<and> fileC_uploaded =
       \<lparr>files = [\<lparr>id_PDFFile = ''id0'', name_PDFFile = ''c.pdf'', file_PDFFile = fileC,
                   pageCount = 2\<rparr>],
        allPages = [Some \<lparr>id_PDFPage = ''id0-0'', sourceFileId = ''id0'', pageIndex = 0,
                          previewUrl = ''data:7'', originalFileName = ''c.pdf''\<rparr>],
        isLoading = False\<rparr>
   \<and> handleDownload sample_pdflib fileC_uploaded =
       Some (Inr \<lparr>outPages = [255], pdfBytes = [37, 255], loaded = [fileC]\<rparr>)"
  by code_simp

section \<open>Properties of the upload\<close>

lemma upload_loop_fails:
  assumes "f \<in> set batch" "type_File f = ''application/pdf''" "loadPdfAndGetPreviews E f = Inl e"
  shows "\<exists>e'. upload_loop E ids batch newFiles newPages = Inl e' \<and> (e' = DecodeError \<or> e' = RenderError)"
  using assms
proof (induction batch arbitrary: newFiles newPages)
  case Nil
  then show ?case by simp
next
  case (Cons g rest)
  show ?case
  proof (cases "g = f")
    case True
    with Cons.prems load_error [of E f e] show ?thesis by simp
  next
    case False
    with Cons.prems have "f \<in> set rest" by simp
    from Cons.IH [OF this Cons.prems(2,3)] show ?thesis
      by (auto simp: Let_def split: sum.splits dest: load_error)
  qed
qed

lemma upload_fails:
  assumes "f \<in> set batch" "type_File f = ''application/pdf''" "loadPdfAndGetPreviews E f = Inl e"
  shows "\<exists>e'. handleFileUpload E ids st batch = (st\<lparr>isLoading := False\<rparr>, Some e')
           \<and> (e' = DecodeError \<or> e' = RenderError)"
proof -
  from assms(1) have "batch \<noteq> []" by auto
  moreover from upload_loop_fails [OF assms] obtain e' where
    "upload_loop E ids batch [] [] = Inl e'" "e' = DecodeError \<or> e' = RenderError"
    by blast
  ultimately show ?thesis by (simp add: handleFileUpload_def)
qed

lemma upload_loop_files:
  assumes "upload_loop E ids batch newFiles newPages = Inr (newFiles', newPages')"
  shows "map file_PDFFile newFiles' =
           map file_PDFFile newFiles @ filter (\<lambda>f. type_File f = ''application/pdf'') batch
         \<and> map id_PDFFile newFiles' =
           map id_PDFFile newFiles @
             map ids [length newFiles ..<
                      length newFiles + length (filter (\<lambda>f. type_File f = ''application/pdf'') batch)]
         \<and> (\<forall>f\<in>set batch. type_File f = ''application/pdf'' \<longrightarrow>
               (\<exists>r. loadPdfAndGetPreviews E f = Inr r))"
  using assms
proof (induction batch arbitrary: newFiles newPages)
  case Nil
  then show ?case by simp
next
  case (Cons g rest)
  show ?case
  proof (cases "type_File g = ''application/pdf''")
    case False
    with Cons.prems have "upload_loop E ids rest newFiles newPages = Inr (newFiles', newPages')"
      by simp
    from Cons.IH [OF this] False show ?thesis by simp
  next
    case True
    with Cons.prems obtain n previews where
      ld: "loadPdfAndGetPreviews E g = Inr (n, previews)"
      by (auto split: sum.splits)
    let ?nf = "newFiles @ [\<lparr>id_PDFFile = ids (length newFiles), name_PDFFile = name_File g,
                                 file_PDFFile = g, pageCount = n\<rparr>]"
    from Cons.prems True ld have
      "upload_loop E ids rest ?nf (newPages @ newPagesOf (ids (length newFiles)) g previews)
         = Inr (newFiles', newPages')"
      by (simp add: Let_def)
    note ih = Cons.IH [OF this]
    let ?m = "length (filter (\<lambda>f. type_File f = ''application/pdf'') rest)"
    have "[length newFiles ..< length newFiles + Suc ?m] =
            length newFiles # [Suc (length newFiles) ..< Suc (length newFiles) + ?m]"
      using upt_conv_Cons [of "length newFiles" "length newFiles + Suc ?m"]
      by (simp del: upt_Suc)
    with ih True ld show ?thesis by (simp del: upt_Suc)
  qed
qed

text \<open>
  C1, as the code has it. One \<^verbatim>\<open>try\<close> block encloses the loop over the whole batch, so a
  file of type \<^verbatim>\<open>application/pdf\<close> that fails to load, with a \<open>DecodeError\<close> or a
  \<open>RenderError\<close>, aborts the upload of the whole batch: the error is reported once, and
  the file list and the page list stay as they were. No file of the batch is registered
  and none contributes a page, the failing one included.
\<close>

theorem failed_load_aborts_batch:
  assumes "f \<in> set batch" "type_File f = ''application/pdf''"
    and "loadPdfAndGetPreviews E f = Inl e"
  shows "\<exists>e'. handleFileUpload E ids st batch = (st\<lparr>isLoading := False\<rparr>, Some e')
           \<and> (e' = DecodeError \<or> e' = RenderError)"
  using upload_fails [OF assms] .

theorem failed_load_aborts_batch_witness:
  "fileX \<in> set [fileB, fileX] \<and> type_File fileX = ''application/pdf''
   \<and> loadPdfAndGetPreviews sample_pdfjs fileX = Inl DecodeError
   \<and> (\<exists>e'. handleFileUpload sample_pdfjs sample_ids three_pages [fileB, fileX]
              = (three_pages\<lparr>isLoading := False\<rparr>, Some e')
           \<and> (e' = DecodeError \<or> e' = RenderError))"
proof -
  have 1: "fileX \<in> set [fileB, fileX]" by simp
  have 2: "type_File fileX = ''application/pdf''" by (simp add: fileX_def)
  have 3: "loadPdfAndGetPreviews sample_pdfjs fileX = Inl DecodeError"
    by (simp add: loadPdfAndGetPreviews_def sample_pdfjs_def fileX_def)
  from failed_load_aborts_batch [OF 1 2 3] 1 2 3 show ?thesis by blast
qed

text \<open>
  C1 as stated fails: in the batch of \<open>fileA\<close>, which loads with its three previews, and
  \<open>fileX\<close>, which is not a PDF, the \<open>DecodeError\<close> of \<open>fileX\<close> discards \<open>fileA\<close> too.
  Nothing is registered.
\<close>

theorem one_bad_file_discards_batch_counterexample:
  "loadPdfAndGetPreviews sample_pdfjs fileA = Inr (3, [''data:1'', ''data:2'', ''data:3''])
   \<and> loadPdfAndGetPreviews sample_pdfjs fileX = Inl DecodeError
   \<and> handleFileUpload sample_pdfjs sample_ids empty_state [fileA, fileX]
       = (empty_state, Some DecodeError)
   \<and> files empty_state = [] \<and> allPages empty_state = []"
  by code_simp

text \<open>
  C2, as the code has it. The upload looks nothing up: an upload that succeeds appends
  one new entry, with a newly drawn identifier, for each file of type
  \<^verbatim>\<open>application/pdf\<close> in the batch, in the order of the batch, whatever is registered
  already, and each of these files has been decoded and rendered by the loader.
\<close>

theorem upload_registers_every_file:
  assumes "handleFileUpload E ids st batch = (st', None)"
  shows "map file_PDFFile (files st') =
           map file_PDFFile (files st) @ filter (\<lambda>f. type_File f = ''application/pdf'') batch
         \<and> map id_PDFFile (files st') =
           map id_PDFFile (files st) @
             map ids [0 ..< length (filter (\<lambda>f. type_File f = ''application/pdf'') batch)]
         \<and> (\<forall>f\<in>set batch. type_File f = ''application/pdf'' \<longrightarrow>
               (\<exists>r. loadPdfAndGetPreviews E f = Inr r))"
proof (cases "batch = []")
  case True
  with assms show ?thesis by (simp add: handleFileUpload_def)
next
  case False
  with assms obtain newFiles newPages where
    lp: "upload_loop E ids batch [] [] = Inr (newFiles, newPages)"
    and st': "st' = st\<lparr>files := files st @ newFiles,
                       allPages := allPages st @ map Some newPages, isLoading := False\<rparr>"
    by (auto simp: handleFileUpload_def split: sum.splits)
  from upload_loop_files [OF lp] st' show ?thesis by simp
qed

theorem upload_registers_every_file_witness:
  "handleFileUpload sample_pdfjs sample_ids three_pages [fileA]
     = (three_pages\<lparr>files := files three_pages @
                       [\<lparr>id_PDFFile = ''id0'', name_PDFFile = ''a.pdf'', file_PDFFile = fileA,
                         pageCount = 3\<rparr>],
                     allPages := allPages three_pages @
                       [Some pageA0, Some pageA1,
                        Some \<lparr>id_PDFPage = ''id0-2'', sourceFileId = ''id0'', pageIndex = 2,
                              previewUrl = ''data:3'', originalFileName = ''a.pdf''\<rparr>]\<rparr>, None)
   \<and> map file_PDFFile (files (fst (handleFileUpload sample_pdfjs sample_ids three_pages [fileA])))
       = [fileA, fileB, fileA]"
proof -
  have h: "handleFileUpload sample_pdfjs sample_ids three_pages [fileA]
     = (three_pages\<lparr>files := files three_pages @
                       [\<lparr>id_PDFFile = ''id0'', name_PDFFile = ''a.pdf'', file_PDFFile = fileA,
                         pageCount = 3\<rparr>],
                     allPages := allPages three_pages @
                       [Some pageA0, Some pageA1,
                        Some \<lparr>id_PDFPage = ''id0-2'', sourceFileId = ''id0'', pageIndex = 2,
                              previewUrl = ''data:3'', originalFileName = ''a.pdf''\<rparr>]\<rparr>, None)"
    by code_simp
  from upload_registers_every_file [OF h] h show ?thesis
    by (simp add: three_pages_def fileA_def)
qed

text \<open>
  C2 as stated fails: uploading \<open>fileA\<close> and then the same \<open>fileA\<close> again registers two
  entries for it, under two identifiers.
\<close>

theorem same_bytes_registered_twice_counterexample:
  "files (fst (handleFileUpload sample_pdfjs later_ids
                 (fst (handleFileUpload sample_pdfjs sample_ids empty_state [fileA])) [fileA]))
     = [\<lparr>id_PDFFile = ''id0'', name_PDFFile = ''a.pdf'', file_PDFFile = fileA, pageCount = 3\<rparr>,
        \<lparr>id_PDFFile = ''id1'', name_PDFFile = ''a.pdf'', file_PDFFile = fileA, pageCount = 3\<rparr>]"
  by code_simp



section \<open>Properties of the export\<close>

lemma pagesToProcess_missing:
  assumes "None \<notin> set slots" "Some p \<in> set slots" "sourceFileId p \<notin> id_PDFFile ` set fs"
  shows "pagesToProcess fs slots = Inl MissingSource"
  using assms
proof (induction slots)
  case Nil
  then show ?case by simp
next
  case (Cons slot rest)
  from Cons.prems(1) obtain q where q: "slot = Some q" by (cases slot) auto
  show ?case
  proof (cases "find (\<lambda>f. id_PDFFile f = sourceFileId q) fs")
    case None
    with q show ?thesis by simp
  next
    case (Some sf)
    then have "sourceFileId q \<in> id_PDFFile ` set fs"
      by (auto simp: find_Some_iff image_iff) (metis nth_mem)
    with Cons.prems(3) have "q \<noteq> p" by auto
    with Cons.prems q have "None \<notin> set rest" "Some p \<in> set rest" by auto
    from Cons.IH [OF this Cons.prems(3)] q Some show ?thesis by simp
  qed
qed

text \<open>
  C7. Every page is resolved to its source file before the merge is called. If the page
  list, a list without \<^verbatim>\<open>undefined\<close> slots, has a page whose \<^verbatim>\<open>sourceFileId\<close> is the identifier of no registered file, the
  export fails with \<open>MissingSource\<close>, whatever the PDF writer would do: nothing is
  decoded, copied or saved, and no download is offered.
\<close>

theorem missing_source_aborts_export:
  assumes "None \<notin> set (allPages st)" "Some p \<in> set (allPages st)"
    and "sourceFileId p \<notin> id_PDFFile ` set (files st)"
  shows "handleDownload L st = Some (Inl MissingSource)"
proof -
  from assms(2) have "allPages st \<noteq> []" by auto
  with pagesToProcess_missing [OF assms] show ?thesis
    by (simp add: handleDownload_def)
qed

theorem missing_source_aborts_export_witness:
  "None \<notin> set (allPages dangling_state) \<and> Some pageA0 \<in> set (allPages dangling_state)
   \<and> sourceFileId pageA0 \<notin> id_PDFFile ` set (files dangling_state)
   \<and> handleDownload sample_pdflib dangling_state = Some (Inl MissingSource)"
proof -
  have 1: "None \<notin> set (allPages dangling_state)" by (simp add: dangling_state_def)
  have 2: "Some pageA0 \<in> set (allPages dangling_state)" by (simp add: dangling_state_def)
  have 3: "sourceFileId pageA0 \<notin> id_PDFFile ` set (files dangling_state)"
    by (simp add: dangling_state_def pageA0_def)
  from missing_source_aborts_export [OF 1 2 3, of sample_pdflib] 1 2 3 show ?thesis by blast
qed

lemma cache_inv_empty: "cache_inv L Map.empty []"
  by (simp add: cache_inv_def)

lemma cache_inv_add:
  assumes "cache_inv L cache loads" "cache (fileKey f) = None" "load L (arrayBuffer f) = Some d"
  shows "cache_inv L (cache(fileKey f \<mapsto> d)) (loads @ [f])"
proof -
  from assms(1,2) have notin: "fileKey f \<notin> fileKey ` set loads"
    by (auto simp: cache_inv_def dom_def)
  then have "\<forall>g\<in>set loads. fileKey g \<noteq> fileKey f" by (metis imageI)
  with assms notin show ?thesis
    by (auto simp: cache_inv_def)
qed

lemma cache_inv_lookup:
  assumes "cache_inv L cache loads" "cache key = Some d"
  shows "\<exists>f\<in>set loads. fileKey f = key \<and> load L (arrayBuffer f) = Some d"
proof -
  from assms have "key \<in> fileKey ` set loads" by (auto simp: cache_inv_def dom_def)
  then obtain f where f: "f \<in> set loads" "fileKey f = key" by auto
  with assms(1) obtain d' where "load L (arrayBuffer f) = Some d'" "cache (fileKey f) = Some d'"
    by (auto simp: cache_inv_def)
  with f assms(2) show ?thesis by auto
qed

lemma merge_loop_result:
  assumes "cache_inv L cache loads"
    and "merge_loop L items merged cache loads = Inr (merged', loads')"
  shows "\<exists>cache' new cp.
           cache_inv L cache' loads' \<and> loads' = loads @ new \<and> set new \<subseteq> fst ` set items \<and>
           fileKey ` fst ` set items \<subseteq> dom cache' \<and>
           merged' = merged @ cp \<and> length cp = length items \<and>
           (\<forall>k<length items. \<exists>d. cache' (fileKey (fst (items ! k))) = Some d \<and>
                                  copyPage L d (snd (items ! k)) = Some (cp ! k))"
  using assms
proof (induction items arbitrary: merged cache loads)
  case Nil
  then show ?case by auto
next
  case (Cons item rest)
  obtain sf idx where item: "item = (sf, idx)" by (cases item)
  show ?case
  proof (cases "cache (fileKey sf)")
    case (Some d)
    with Cons.prems(2) item obtain pg where
      pg: "copyPage L d idx = Some pg"
      and rec: "merge_loop L rest (merged @ [pg]) cache loads = Inr (merged', loads')"
      by (auto split: option.splits)
    from Cons.IH [OF Cons.prems(1) rec] obtain cache' new cp where
      ih: "cache_inv L cache' loads'" "loads' = loads @ new" "set new \<subseteq> fst ` set rest"
          "fileKey ` fst ` set rest \<subseteq> dom cache'"
          "merged' = (merged @ [pg]) @ cp" "length cp = length rest"
          "\<forall>k<length rest. \<exists>d. cache' (fileKey (fst (rest ! k))) = Some d \<and>
                                  copyPage L d (snd (rest ! k)) = Some (cp ! k)"
      by blast
    have sub: "cache' (fileKey sf) = Some d"
    proof -
      from cache_inv_lookup [OF Cons.prems(1) Some] obtain g where
        g: "g \<in> set loads" "fileKey g = fileKey sf" "load L (arrayBuffer g) = Some d"
        by blast
      moreover from g ih(2) have "g \<in> set loads'" by simp
      ultimately show ?thesis using ih(1) by (auto simp: cache_inv_def)
    qed
    have "\<forall>k<length (item # rest). \<exists>d. cache' (fileKey (fst ((item # rest) ! k))) = Some d \<and>
                                  copyPage L d (snd ((item # rest) ! k)) = Some ((pg # cp) ! k)"
    proof (intro allI impI)
      fix k assume "k < length (item # rest)"
      then show "\<exists>d. cache' (fileKey (fst ((item # rest) ! k))) = Some d \<and>
                                  copyPage L d (snd ((item # rest) ! k)) = Some ((pg # cp) ! k)"
        using sub pg item ih(7) by (cases k) auto
    qed
    moreover have "fileKey ` fst ` set (item # rest) \<subseteq> dom cache'"
      using ih(4) sub item by auto
    moreover have "set new \<subseteq> fst ` set (item # rest)" using ih(3) by auto
    moreover have "merged' = merged @ (pg # cp)" "length (pg # cp) = length (item # rest)"
      using ih(5,6) by simp_all
    ultimately show ?thesis using ih(1,2) by blast
  next
    case None
    with Cons.prems(2) item obtain d pg where
      d: "load L (arrayBuffer sf) = Some d"
      and pg: "copyPage L d idx = Some pg"
      and rec: "merge_loop L rest (merged @ [pg]) (cache(fileKey sf \<mapsto> d)) (loads @ [sf])
                  = Inr (merged', loads')"
      by (auto split: option.splits)
    have inv': "cache_inv L (cache(fileKey sf \<mapsto> d)) (loads @ [sf])"
      using cache_inv_add [OF Cons.prems(1) None d] .
    from Cons.IH [OF inv' rec] obtain cache' new cp where
      ih: "cache_inv L cache' loads'" "loads' = (loads @ [sf]) @ new" "set new \<subseteq> fst ` set rest"
          "fileKey ` fst ` set rest \<subseteq> dom cache'"
          "merged' = (merged @ [pg]) @ cp" "length cp = length rest"
          "\<forall>k<length rest. \<exists>d. cache' (fileKey (fst (rest ! k))) = Some d \<and>
                                  copyPage L d (snd (rest ! k)) = Some (cp ! k)"
      by blast
    have sub: "cache' (fileKey sf) = Some d"
    proof -
      from ih(2) have "sf \<in> set loads'" by simp
      with ih(1) d show ?thesis by (auto simp: cache_inv_def)
    qed
    have "\<forall>k<length (item # rest). \<exists>d. cache' (fileKey (fst ((item # rest) ! k))) = Some d \<and>
                                  copyPage L d (snd ((item # rest) ! k)) = Some ((pg # cp) ! k)"
    proof (intro allI impI)
      fix k assume "k < length (item # rest)"
      then show "\<exists>d. cache' (fileKey (fst ((item # rest) ! k))) = Some d \<and>
                                  copyPage L d (snd ((item # rest) ! k)) = Some ((pg # cp) ! k)"
        using sub pg item ih(7) by (cases k) auto
    qed
    moreover have "fileKey ` fst ` set (item # rest) \<subseteq> dom cache'"
      using ih(4) sub item by auto
    moreover have "set (sf # new) \<subseteq> fst ` set (item # rest)" using ih(3) item by auto
    moreover have "merged' = merged @ (pg # cp)" "length (pg # cp) = length (item # rest)"
      using ih(5,6) by simp_all
    moreover have "loads' = loads @ (sf # new)" using ih(2) by simp
    ultimately show ?thesis using ih(1) by blast
  qed
qed

lemma merge_result:
  assumes "mergeAndDownloadPdf L pages = Inr r"
  shows "\<exists>cache'. cache_inv L cache' (loaded r) \<and> set (loaded r) \<subseteq> fst ` set pages \<and>
           fileKey ` fst ` set pages \<subseteq> dom cache' \<and> length (outPages r) = length pages \<and>
           (\<forall>k<length pages. \<exists>d. cache' (fileKey (fst (pages ! k))) = Some d \<and>
                                  copyPage L d (snd (pages ! k)) = Some (outPages r ! k))"
proof -
  from assms obtain merged' loads' bs where
    lp: "merge_loop L pages [] Map.empty [] = Inr (merged', loads')"
    and r: "r = \<lparr>outPages = merged', pdfBytes = bs, loaded = loads'\<rparr>"
    by (auto simp: mergeAndDownloadPdf_def split: sum.splits option.splits)
  from merge_loop_result [OF cache_inv_empty lp] r show ?thesis by auto
qed

lemma distinct_count_list_one: "distinct xs \<Longrightarrow> x \<in> set xs \<Longrightarrow> count_list xs x = 1"
  by (induction xs) auto

text \<open>
  The cache of the export is keyed by the name and the size of the file
  (\<^verbatim>\<open>fileKey\<close>), not by the source's identifier. An export that succeeds has
  decoded exactly one file for each key among the referenced files, never two with the
  same key; the output has one page for each page reference, in order, and each is the
  copy of the referenced page index from the document decoded under the key of its file.
  So equal page references give equal output pages, as often as they occur. When no two
  different referenced files share name and size, every referenced file is decoded
  exactly once and every output page is copied from its own file.
\<close>

lemma merge_decodes_once_per_key:
  assumes "mergeAndDownloadPdf L pages = Inr r"
  shows "distinct (map fileKey (loaded r))
         \<and> fileKey ` set (loaded r) = fileKey ` fst ` set pages
         \<and> set (loaded r) \<subseteq> fst ` set pages
         \<and> length (outPages r) = length pages
         \<and> (\<forall>k<length pages. \<exists>f d. f \<in> set (loaded r) \<and> fileKey f = fileKey (fst (pages ! k))
               \<and> load L (arrayBuffer f) = Some d
               \<and> copyPage L d (snd (pages ! k)) = Some (outPages r ! k))
         \<and> (\<forall>i<length pages. \<forall>j<length pages.
               pages ! i = pages ! j \<longrightarrow> outPages r ! i = outPages r ! j)
         \<and> (inj_on fileKey (fst ` set pages) \<longrightarrow>
               (\<forall>f\<in>fst ` set pages. count_list (loaded r) f = 1)
               \<and> (\<forall>k<length pages. \<exists>d. load L (arrayBuffer (fst (pages ! k))) = Some d
                     \<and> copyPage L d (snd (pages ! k)) = Some (outPages r ! k)))"
proof -
  from merge_result [OF assms] obtain cache' where
    inv: "cache_inv L cache' (loaded r)" and sub: "set (loaded r) \<subseteq> fst ` set pages"
    and keys: "fileKey ` fst ` set pages \<subseteq> dom cache'"
    and len: "length (outPages r) = length pages"
    and cp: "\<forall>k<length pages. \<exists>d. cache' (fileKey (fst (pages ! k))) = Some d \<and>
                                  copyPage L d (snd (pages ! k)) = Some (outPages r ! k)"
    by blast
  have dist: "distinct (map fileKey (loaded r))" using inv by (simp add: cache_inv_def)
  have keyeq: "fileKey ` set (loaded r) = fileKey ` fst ` set pages"
  proof
    show "fileKey ` set (loaded r) \<subseteq> fileKey ` fst ` set pages" using sub by auto
    show "fileKey ` fst ` set pages \<subseteq> fileKey ` set (loaded r)"
      using keys inv by (simp add: cache_inv_def)
  qed
  have own: "\<forall>k<length pages. \<exists>f d. f \<in> set (loaded r) \<and> fileKey f = fileKey (fst (pages ! k))
               \<and> load L (arrayBuffer f) = Some d
               \<and> copyPage L d (snd (pages ! k)) = Some (outPages r ! k)"
  proof (intro allI impI)
    fix k assume "k < length pages"
    with cp obtain d where d: "cache' (fileKey (fst (pages ! k))) = Some d"
      "copyPage L d (snd (pages ! k)) = Some (outPages r ! k)" by blast
    from cache_inv_lookup [OF inv d(1)] d(2)
    show "\<exists>f d. f \<in> set (loaded r) \<and> fileKey f = fileKey (fst (pages ! k))
               \<and> load L (arrayBuffer f) = Some d
               \<and> copyPage L d (snd (pages ! k)) = Some (outPages r ! k)"
      by blast
  qed
  have same: "\<forall>i<length pages. \<forall>j<length pages.
               pages ! i = pages ! j \<longrightarrow> outPages r ! i = outPages r ! j"
  proof (intro allI impI)
    fix i j assume i: "i < length pages" and j: "j < length pages" and eq: "pages ! i = pages ! j"
    from cp i obtain d where d: "cache' (fileKey (fst (pages ! i))) = Some d"
      "copyPage L d (snd (pages ! i)) = Some (outPages r ! i)" by blast
    from cp j obtain d' where d': "cache' (fileKey (fst (pages ! j))) = Some d'"
      "copyPage L d' (snd (pages ! j)) = Some (outPages r ! j)" by blast
    from d d' eq show "outPages r ! i = outPages r ! j" by simp
  qed
  have inj: "inj_on fileKey (fst ` set pages) \<longrightarrow>
               (\<forall>f\<in>fst ` set pages. count_list (loaded r) f = 1)
               \<and> (\<forall>k<length pages. \<exists>d. load L (arrayBuffer (fst (pages ! k))) = Some d
                     \<and> copyPage L d (snd (pages ! k)) = Some (outPages r ! k))"
  proof
    assume io: "inj_on fileKey (fst ` set pages)"
    have "\<forall>f\<in>fst ` set pages. count_list (loaded r) f = 1"
    proof
      fix f assume f: "f \<in> fst ` set pages"
      then have "fileKey f \<in> fileKey ` set (loaded r)" using keyeq by auto
      then obtain g where g: "g \<in> set (loaded r)" "fileKey g = fileKey f" by auto
      with sub have "g \<in> fst ` set pages" by auto
      with io f g(2) have "g = f" by (auto dest: inj_onD)
      with g(1) have "f \<in> set (loaded r)" by simp
      moreover from dist have "distinct (loaded r)" by (simp add: distinct_map)
      ultimately show "count_list (loaded r) f = 1" by (simp add: distinct_count_list_one)
    qed
    moreover have "\<forall>k<length pages. \<exists>d. load L (arrayBuffer (fst (pages ! k))) = Some d
                     \<and> copyPage L d (snd (pages ! k)) = Some (outPages r ! k)"
    proof (intro allI impI)
      fix k assume k: "k < length pages"
      with own obtain f d where fd: "f \<in> set (loaded r)" "fileKey f = fileKey (fst (pages ! k))"
        "load L (arrayBuffer f) = Some d" "copyPage L d (snd (pages ! k)) = Some (outPages r ! k)"
        by blast
      from k have "fst (pages ! k) \<in> fst ` set pages" by simp
      moreover from fd(1) sub have "f \<in> fst ` set pages" by auto
      ultimately have "f = fst (pages ! k)" using io fd(2) by (auto dest: inj_onD)
      with fd show "\<exists>d. load L (arrayBuffer (fst (pages ! k))) = Some d
                     \<and> copyPage L d (snd (pages ! k)) = Some (outPages r ! k)" by auto
    qed
    ultimately show "(\<forall>f\<in>fst ` set pages. count_list (loaded r) f = 1)
               \<and> (\<forall>k<length pages. \<exists>d. load L (arrayBuffer (fst (pages ! k))) = Some d
                     \<and> copyPage L d (snd (pages ! k)) = Some (outPages r ! k))" by blast
  qed
  from dist keyeq sub len own same inj show ?thesis by blast
qed

lemma merge_decodes_once_per_key_three_pages:
  "mergeAndDownloadPdf sample_pdflib [(fileA, 0), (fileB, 1), (fileA, 0)]
     = Inr \<lparr>outPages = [1, 5, 1], pdfBytes = [37, 1, 5, 1], loaded = [fileA, fileB]\<rparr>
   \<and> distinct (map fileKey [fileA, fileB])
   \<and> count_list [fileA, fileB] fileA = 1 \<and> count_list [fileA, fileB] fileB = 1"
proof -
  have h: "mergeAndDownloadPdf sample_pdflib [(fileA, 0), (fileB, 1), (fileA, 0)]
     = Inr \<lparr>outPages = [1, 5, 1], pdfBytes = [37, 1, 5, 1], loaded = [fileA, fileB]\<rparr>"
    by code_simp
  have k: "fileKey fileA = ''a.pdf-4''" "fileKey fileB = ''b.pdf-3''" by code_simp+
  have io: "inj_on fileKey (fst ` set [(fileA, 0::nat), (fileB, 1), (fileA, 0)])"
    by (auto simp: inj_on_def k)
  from merge_decodes_once_per_key [OF h] io h show ?thesis by simp
qed

text \<open>
  C5. The export breaks the claim for two sources with the same name and size. \<open>fileA\<close>
  and \<open>fileA2\<close> are different documents of three pages, both named \<^verbatim>\<open>a.pdf\<close> and four
  bytes long, so both have the key \<^verbatim>\<open>a.pdf-4\<close>. Uploaded one after the other they are
  registered under two identifiers, and the page list shows the previews of the pages
  1, 2, 3 and 9, 8, 7, each source referenced three times. The export decodes \<open>fileA\<close>
  once and \<open>fileA2\<close> never, although \<open>fileA2\<close> decodes to its own pages, and its output
  is 1, 2, 3, 1, 2, 3: the pages of \<open>fileA2\<close> are copied from \<open>fileA\<close>.
\<close>

theorem same_name_and_size_exports_other_pages:
  "uploaded_twice =
     \<lparr>files = [\<lparr>id_PDFFile = ''id0'', name_PDFFile = ''a.pdf'', file_PDFFile = fileA,
                 pageCount = 3\<rparr>,
               \<lparr>id_PDFFile = ''id1'', name_PDFFile = ''a.pdf'', file_PDFFile = fileA2,
                 pageCount = 3\<rparr>],
      allPages =
        [Some \<lparr>id_PDFPage = ''id0-0'', sourceFileId = ''id0'', pageIndex = 0,
               previewUrl = ''data:1'', originalFileName = ''a.pdf''\<rparr>,
         Some \<lparr>id_PDFPage = ''id0-1'', sourceFileId = ''id0'', pageIndex = 1,
               previewUrl = ''data:2'', originalFileName = ''a.pdf''\<rparr>,
         Some \<lparr>id_PDFPage = ''id0-2'', sourceFileId = ''id0'', pageIndex = 2,
               previewUrl = ''data:3'', originalFileName = ''a.pdf''\<rparr>,
         Some \<lparr>id_PDFPage = ''id1-0'', sourceFileId = ''id1'', pageIndex = 0,
               previewUrl = ''data:9'', originalFileName = ''a.pdf''\<rparr>,
         Some \<lparr>id_PDFPage = ''id1-1'', sourceFileId = ''id1'', pageIndex = 1,
               previewUrl = ''data:8'', originalFileName = ''a.pdf''\<rparr>,
         Some \<lparr>id_PDFPage = ''id1-2'', sourceFileId = ''id1'', pageIndex = 2,
               previewUrl = ''data:7'', originalFileName = ''a.pdf''\<rparr>],
      isLoading = False\<rparr>
   \<and> fileKey fileA = ''a.pdf-4'' \<and> fileKey fileA2 = ''a.pdf-4''
   \<and> load sample_pdflib (arrayBuffer fileA) = Some [1, 2, 3]
   \<and> load sample_pdflib (arrayBuffer fileA2) = Some [9, 8, 7]
   \<and> handleDownload sample_pdflib uploaded_twice =
       Some (Inr \<lparr>outPages = [1, 2, 3, 1, 2, 3], pdfBytes = [37, 1, 2, 3, 1, 2, 3],
                  loaded = [fileA]\<rparr>)
   \<and> count_list [fileA] fileA = 1 \<and> count_list [fileA] fileA2 = 0"
  by code_simp

end
